theory Spec2Isabelle
  imports Complex_Main
begin

section \<open>Frequency tables and chord resolution of \<open>plot_musical_notes.py\<close>\<close>

text \<open>
  The development embeds the numeric core of the script: the table builder
  \<open>calc_all_notes\<close> (with \<open>calc_octave\<close>), the name generator
  \<open>combine_prefix_suffix\<close>, the chord resolver \<open>calc_chord_freqs\<close> and the entry point
  \<open>chords\<close>.  Frequencies are Python floats.  They are modelled as real numbers: the only
  arithmetic the core performs on them is a multiplication by a power of two, which binary
  floating point carries out exactly in the range used, and the base-frequency literals are
  read as the decimal fractions written in the source.  Plotting and printing are left out.
\<close>

subsection \<open>Python values: exceptions, lists, dictionaries\<close>

datatype py_error = KeyError | IndexError

text \<open>\<open>xs[i]\<close>: a negative index counts from the end, anything outside raises.\<close>

definition list_get :: "'a list \<Rightarrow> int \<Rightarrow> py_error + 'a" where
  "list_get xs i =
     (if 0 \<le> i \<and> i < int (length xs) then Inr (xs ! nat i)
      else if - int (length xs) \<le> i \<and> i < 0 then Inr (xs ! nat (int (length xs) + i))
      else Inl IndexError)"

text \<open>
  The script is Python 2 (it calls \<open>dict.iteritems\<close>), where a dictionary has no defined
  iteration order.  A dictionary is therefore a finite map: it answers lookups by key and
  nothing about positions.
\<close>

type_synonym ('k, 'v) dict = "'k \<rightharpoonup> 'v"

text \<open>
  \<open>dict(pairs)\<close>, as in \<open>dict(zip(names, values))\<close>: the pairs are stored one after the
  other, a later pair replacing the value of an earlier one with the same key.
\<close>

definition py_dict :: "('k \<times> 'v) list \<Rightarrow> ('k, 'v) dict" where
  "py_dict kvs = fold (\<lambda>(k, v) d. d(k \<mapsto> v)) kvs Map.empty"

text \<open>\<open>d[k]\<close>: raises \<open>KeyError\<close> for a missing key.\<close>

definition dict_get :: "('k, 'v) dict \<Rightarrow> 'k \<Rightarrow> py_error + 'v" where
  "dict_get d k = (case d k of None \<Rightarrow> Inl KeyError | Some v \<Rightarrow> Inr v)"

subsection \<open>The table builder\<close>

text \<open>
  \<open>calc_octave(input_pitch, num_octaves)\<close> returns \<open>input_pitch * np.power(2, num_octaves)\<close>.
  Its only caller passes \<open>float(i)\<close> for a loop index \<open>i\<close>, so the exponent is a natural
  number.  The product is the exact one, which is what double precision computes as long
  as it stays in range; it does for the scales of the script, of 7 and 12 entries (exponents
  up to 11).  Beyond exponent 1023 the power of two itself overflows in the source; the
  claims below use the value of an entry only for scales of at most 12 entries.
\<close>

definition calc_octave :: "real \<Rightarrow> nat \<Rightarrow> real" where
  "calc_octave input_pitch num_octaves = input_pitch * 2 ^ num_octaves"

text \<open>
  \<open>calc_all_notes(input_scale)\<close>: the outer loop runs over \<open>range(0, len(input_scale))\<close>, the
  inner one over the scale, each step appending to \<open>freq_arr\<close>.
\<close>

definition calc_all_notes :: "real list \<Rightarrow> real list" where
  "calc_all_notes input_scale =
     fold (\<lambda>i freq_arr.
             fold (\<lambda>note freq_arr. freq_arr @ [calc_octave note i]) input_scale freq_arr)
          [0..<length input_scale] []"

text \<open>The base frequencies of octave \<open>-1\<close> (C, Cs, D, Ds, E, F, Fs, G, Gs, A, As, B).\<close>

definition cf_1 :: "real list" where
  "cf_1 = [8.1758, 8.6620, 9.1770, 9.7227, 10.301, 10.914,
           11.563, 12.250, 12.979, 13.750, 14.568, 15.434]"

subsection \<open>Name generation\<close>

text \<open>
  \<open>combine_prefix_suffix(prefixes, suffixes, order)\<close>: two independent \<open>if\<close> statements,
  each a pair of nested loops appending \<open>pre + suff\<close>; any other \<open>order\<close> leaves the list
  empty.
\<close>

definition combine_prefix_suffix :: "string list \<Rightarrow> string list \<Rightarrow> string \<Rightarrow> string list" where
  "combine_prefix_suffix prefixes suffixes order =
     (let combined = [];
          combined = (if order = ''prefixes_first''
                      then fold (\<lambda>suff combined.
                                   fold (\<lambda>pre combined. combined @ [pre @ suff]) prefixes combined)
                                suffixes combined
                      else combined);
          combined = (if order = ''suffixes_first''
                      then fold (\<lambda>pre combined.
                                   fold (\<lambda>suff combined. combined @ [pre @ suff]) suffixes combined)
                                prefixes combined
                      else combined)
      in combined)"

subsection \<open>The chord resolver\<close>

text \<open>
  The position scan of \<open>calc_chord_freqs\<close>: \<open>pos\<close> counts the entries passed before the
  first one equal to the root frequency; the loop ends by \<open>break\<close> or by exhausting the list,
  in which case \<open>pos\<close> is the length of the list.
\<close>

fun find_pos :: "'a list \<Rightarrow> 'a \<Rightarrow> nat \<Rightarrow> nat" where
  "find_pos [] root_note_freq pos = pos"
| "find_pos (i # rest) root_note_freq pos =
     (if i = root_note_freq then pos else find_pos rest root_note_freq (pos + 1))"

text \<open>The inner loop: \<open>chord_freq.append(all_notes[pos + interval])\<close> for each interval.\<close>

fun chord_loop :: "'a list \<Rightarrow> nat \<Rightarrow> int list \<Rightarrow> 'a list \<Rightarrow> py_error + 'a list" where
  "chord_loop all_notes pos [] chord_freq = Inr chord_freq"
| "chord_loop all_notes pos (interval # rest) chord_freq =
     (case list_get all_notes (int pos + interval) of
        Inl e \<Rightarrow> Inl e
      | Inr v \<Rightarrow> chord_loop all_notes pos rest (chord_freq @ [v]))"

text \<open>The outer loop: one fresh \<open>chord_freq\<close> per chord, appended to \<open>chord_frequencies\<close>.\<close>

fun chords_loop ::
  "'a list \<Rightarrow> nat \<Rightarrow> int list list \<Rightarrow> 'a list list \<Rightarrow> py_error + 'a list list" where
  "chords_loop all_notes pos [] chord_frequencies = Inr chord_frequencies"
| "chords_loop all_notes pos (chord # rest) chord_frequencies =
     (case chord_loop all_notes pos chord [] of
        Inl e \<Rightarrow> Inl e
      | Inr chord_freq \<Rightarrow> chords_loop all_notes pos rest (chord_frequencies @ [chord_freq]))"

text \<open>
  \<open>calc_chord_freqs(chord_names, chord_intervals, root_note, notes_dict, all_notes)\<close>;
  the parameter \<open>chord_names\<close> is not used by the body.
\<close>

definition calc_chord_freqs ::
  "string list \<Rightarrow> int list list \<Rightarrow> string \<Rightarrow> (string, 'a) dict \<Rightarrow> 'a list
     \<Rightarrow> py_error + 'a list list" where
  "calc_chord_freqs chord_names chord_intervals root_note notes_dict all_notes =
     (case dict_get notes_dict root_note of
        Inl e \<Rightarrow> Inl e
      | Inr root_note_freq \<Rightarrow>
          (let pos = find_pos all_notes root_note_freq 0
           in chords_loop all_notes pos chord_intervals []))"

subsection \<open>The entry point \<open>chords\<close>\<close>

text \<open>The local data of \<open>chords\<close>, in the order the function builds it.\<close>

definition note_name_prefixes :: "string list" where
  "note_name_prefixes =
     [''C'', ''Cs'', ''D'', ''Ds'', ''E'', ''F'', ''Fs'', ''G'', ''Gs'', ''A'', ''As'', ''B'']"

definition note_name_suffixes :: "string list" where
  "note_name_suffixes =
     [''-1'', ''0'', ''1'', ''2'', ''3''] @ [''4'', ''5'', ''6'', ''7'', ''8'', ''9'']"

definition note_names :: "string list" where
  "note_names = combine_prefix_suffix note_name_prefixes note_name_suffixes ''prefixes_first''"

definition all_notes :: "real list" where
  "all_notes = calc_all_notes cf_1"

definition notes_dict :: "(string, real) dict" where
  "notes_dict = py_dict (zip note_names all_notes)"

definition chord_name_prefixes :: "string list" where
  "chord_name_prefixes =
     [''C'', ''Cs'', ''D'', ''Ds'', ''E'', ''F'', ''Fs'', ''G'', ''Gs'', ''A'', ''As'', ''B'']"

definition chord_name_suffixes :: "string list" where
  "chord_name_suffixes =
     ['' '', ''m'', ''7'', ''m7'', ''maj7'', ''6'', ''m6'', ''6/9'', ''5'', ''9'', ''m9'', ''maj9'',
      ''11'', ''m11'', ''13'', ''m13'', ''add9'', ''add2'', ''7-5'', ''7+5'', ''sus4'', ''sus2'',
      ''dim'', ''m7b5'', ''aug'']"

definition c_chord_name_prefixes :: "string list" where
  "c_chord_name_prefixes = [''C'']"

definition chord_names :: "string list" where
  "chord_names = combine_prefix_suffix chord_name_prefixes chord_name_suffixes ''suffixes_first''"

definition c_chord_names :: "string list" where
  "c_chord_names =
     combine_prefix_suffix c_chord_name_prefixes chord_name_suffixes ''suffixes_first''"

text \<open>Intervals in semitones (\<open>root\<close> is written \<open>root_interval\<close> here).\<close>

definition root_interval :: int where "root_interval = 0"
definition minor_second :: int where "minor_second = 1"
definition major_second :: int where "major_second = 2"
definition minor_third :: int where "minor_third = 3"
definition major_third :: int where "major_third = 4"
definition perfect_fourth :: int where "perfect_fourth = 5"
definition diminished_fifth :: int where "diminished_fifth = 6"
definition perfect_fifth :: int where "perfect_fifth = 7"
definition minor_sixth :: int where "minor_sixth = 8"
definition major_sixth :: int where "major_sixth = 9"
definition minor_seventh :: int where "minor_seventh = 10"
definition major_seventh :: int where "major_seventh = 11"
definition perfect_octave :: int where "perfect_octave = 12"
definition minor_ninth :: int where "minor_ninth = 13"
definition major_ninth :: int where "major_ninth = 14"
definition minor_tenth :: int where "minor_tenth = 15"
definition major_tenth :: int where "major_tenth = 16"
definition eleventh :: int where "eleventh = 17"
definition thirteenth :: int where "thirteenth = 21"

text \<open>The chords \<open>i0\<close> to \<open>i24\<close>, in the order of \<open>chord_name_suffixes\<close>.\<close>

definition chord_intervals :: "int list list" where
  "chord_intervals =
     [[root_interval, major_third, perfect_fifth],
      [root_interval, minor_third, perfect_fifth],
      [root_interval, major_third, perfect_fifth, minor_seventh],
      [root_interval, minor_third, perfect_fifth, minor_seventh],
      [root_interval, major_third, perfect_fifth, major_seventh],
      [root_interval, major_third, perfect_fifth, major_sixth],
      [root_interval, minor_third, perfect_fifth, major_sixth],
      [root_interval, major_third, perfect_fifth, major_sixth, major_ninth],
      [root_interval, perfect_fifth],
      [root_interval, major_third, perfect_fifth, minor_seventh, major_ninth],
      [root_interval, minor_third, perfect_fifth, minor_seventh, major_ninth],
      [root_interval, major_third, perfect_fifth, major_seventh, major_ninth],
      [root_interval, major_third, perfect_fifth, minor_seventh, major_ninth, eleventh],
      [root_interval, minor_third, perfect_fifth, minor_seventh, major_ninth, eleventh],
      [root_interval, major_third, perfect_fifth, minor_seventh, major_ninth, eleventh, thirteenth],
      [root_interval, minor_third, perfect_fifth, minor_seventh, major_ninth, eleventh, thirteenth],
      [root_interval, major_third, perfect_fifth, major_ninth],
      [root_interval, major_second, major_third, perfect_fifth],
      [root_interval, major_third, diminished_fifth, minor_seventh],
      [root_interval, major_third, minor_sixth, minor_seventh],
      [root_interval, perfect_fourth, perfect_fifth],
      [root_interval, major_second, perfect_fifth],
      [root_interval, minor_third, diminished_fifth],
      [root_interval, minor_third, diminished_fifth, minor_seventh],
      [root_interval, major_third, minor_sixth]]"

definition middle_c_chromatic :: "string list" where
  "middle_c_chromatic =
     [''C4'', ''Cs4'', ''D4'', ''Ds4'', ''E4'', ''F4'', ''Fs4'', ''G4'', ''Gs4'', ''A5'', ''As5'',
      ''B5'']"

definition root_note_c4 :: string where
  "root_note_c4 = ''C4''"

text \<open>
  The loop over the root notes: each call of \<open>calc_chord_freqs\<close> is appended to
  \<open>temp_chord_frequencies\<close>; an exception in a call ends the loop.
\<close>

fun roots_loop ::
  "string list \<Rightarrow> int list list \<Rightarrow> (string, 'a) dict \<Rightarrow> 'a list \<Rightarrow> string list
     \<Rightarrow> 'a list list list \<Rightarrow> py_error + 'a list list list" where
  "roots_loop cnames civs ndict notes [] temp_chord_frequencies = Inr temp_chord_frequencies"
| "roots_loop cnames civs ndict notes (root_note # rest) temp_chord_frequencies =
     (case calc_chord_freqs cnames civs root_note ndict notes of
        Inl e \<Rightarrow> Inl e
      | Inr r \<Rightarrow> roots_loop cnames civs ndict notes rest (temp_chord_frequencies @ [r]))"

text \<open>The flattening loop: every inner list of every outer list, appended in order.\<close>

definition flatten_loop :: "'b list list \<Rightarrow> 'b list \<Rightarrow> 'b list" where
  "flatten_loop temp_chord_frequencies chord_frequencies =
     fold (\<lambda>outer chord_frequencies.
             fold (\<lambda>inner chord_frequencies. chord_frequencies @ [inner]) outer chord_frequencies)
          temp_chord_frequencies chord_frequencies"

text \<open>
  \<open>chords(range)\<close>.  The result is \<open>Inl\<close> of the exception if a step raises, otherwise
  \<open>Inr\<close> of the returned value, where \<open>None\<close> stands for Python's \<open>None\<close> of a function
  that ends without \<open>return\<close>.  The argument is written \<open>range_arg\<close>.
\<close>

definition chords :: "string \<Rightarrow> py_error + (string, real list) dict option" where
  "chords range_arg =
     (case calc_chord_freqs chord_names chord_intervals root_note_c4 notes_dict all_notes of
        Inl e \<Rightarrow> Inl e
      | Inr c_chord_frequencies \<Rightarrow>
          (case roots_loop chord_names chord_intervals notes_dict all_notes middle_c_chromatic [] of
             Inl e \<Rightarrow> Inl e
           | Inr temp_chord_frequencies \<Rightarrow>
               (let chord_frequencies = flatten_loop temp_chord_frequencies [];
                    c_chord_dict = py_dict (zip c_chord_names c_chord_frequencies);
                    chord_dict = py_dict (zip chord_names chord_frequencies)
                in if range_arg = ''c'' then Inr (Some c_chord_dict)
                   else if range_arg = ''all'' then Inr (Some chord_dict)
                   else Inr None)))"

subsection \<open>Loops that append\<close>

lemma fold_append_map:
  "fold (\<lambda>x acc. acc @ [g x]) xs acc = acc @ map g xs"
  by (induction xs arbitrary: acc) simp_all

lemma fold_append_concat:
  "fold (\<lambda>x acc. acc @ h x) xs acc = acc @ concat (map h xs)"
  by (induction xs arbitrary: acc) simp_all

lemma fold_fold_append:
  "fold (\<lambda>x acc. fold (\<lambda>y acc. acc @ [g x y]) (ys x) acc) xs acc
     = acc @ concat (map (\<lambda>x. map (g x) (ys x)) xs)"
  by (induction xs arbitrary: acc) (simp_all add: fold_append_map)

lemma length_concat_blocks:
  "length (concat (map (\<lambda>i. map (g i) s) [0..<m])) = m * length s"
  by (induction m) simp_all

lemma nth_concat_blocks:
  assumes "i < m" "p < length s"
  shows "concat (map (\<lambda>i. map (g i) s) [0..<m]) ! (i * length s + p) = g i (s ! p)"
  using assms
proof (induction m)
  case 0
  then show ?case by simp
next
  case (Suc m)
  show ?case
  proof (cases "i < m")
    case True
    have "i * length s + p < Suc i * length s"
      using Suc.prems(2) by simp
    also have "\<dots> \<le> m * length s"
      using True by (intro mult_le_mono1) simp
    finally have "i * length s + p < m * length s" .
    with True Suc show ?thesis
      by (simp add: nth_append length_concat_blocks)
  next
    case False
    with Suc.prems have "i = m" by simp
    with Suc.prems show ?thesis
      by (simp add: nth_append length_concat_blocks)
  qed
qed

subsection \<open>What the table builder computes\<close>

lemma calc_all_notes_concat:
  "calc_all_notes s = concat (map (\<lambda>i. map (\<lambda>note. calc_octave note i) s) [0..<length s])"
  unfolding calc_all_notes_def
  using fold_fold_append [of "\<lambda>i note. calc_octave note i" "\<lambda>_. s" "[0..<length s]" "[]"]
  by simp

lemma length_calc_all_notes: "length (calc_all_notes s) = length s * length s"
  by (simp add: calc_all_notes_concat length_concat_blocks)

lemma nth_calc_all_notes:
  "i < length s \<Longrightarrow> p < length s \<Longrightarrow>
     calc_all_notes s ! (i * length s + p) = s ! p * 2 ^ i"
  using nth_concat_blocks [of i "length s" p s "\<lambda>i note. calc_octave note i"]
  by (simp add: calc_all_notes_concat calc_octave_def)

lemmas interval_defs =
  root_interval_def minor_second_def major_second_def minor_third_def major_third_def
  perfect_fourth_def diminished_fifth_def perfect_fifth_def minor_sixth_def major_sixth_def
  minor_seventh_def major_seventh_def perfect_octave_def minor_ninth_def major_ninth_def
  minor_tenth_def major_tenth_def eleventh_def thirteenth_def

lemma length_cf_1: "length cf_1 = 12"
  by (simp add: cf_1_def)

lemma calc_all_notes_strict_mono:
  assumes srt: "sorted_wrt (<) s" and pos: "\<forall>f\<in>set s. 0 < f"
    and ne: "s \<noteq> []" and oct: "last s < 2 * hd s"
  shows "sorted_wrt (<) (calc_all_notes s)"
proof -
  let ?n = "length s"
  have n0: "0 < ?n" using ne by simp
  have entry: "calc_all_notes s ! a = s ! (a mod ?n) * 2 ^ (a div ?n)" if "a < ?n * ?n" for a
  proof -
    have "a div ?n < ?n" using that n0 by (simp add: less_mult_imp_div_less)
    moreover have "a mod ?n < ?n" using n0 by simp
    ultimately show ?thesis
      using nth_calc_all_notes [of "a div ?n" s "a mod ?n"] by simp
  qed
  have step: "s ! p * 2 ^ i < s ! q * 2 ^ j"
    if "p < ?n" "q < ?n" "i < j \<or> (i = j \<and> p < q)" for p q i j
  proof -
    have pq: "0 < s ! p" "0 < s ! q" using pos that by simp_all
    from that(3) show ?thesis
    proof
      assume ij: "i < j"
      have "s ! p \<le> s ! (?n - 1)"
      proof (cases "p = ?n - 1")
        case True
        then show ?thesis by simp
      next
        case False
        with that(1) have "p < ?n - 1" by simp
        then have "s ! p < s ! (?n - 1)"
          using srt n0 by (simp add: sorted_wrt_iff_nth_less)
        then show ?thesis by simp
      qed
      then have "s ! p \<le> last s"
        by (simp add: last_conv_nth [OF ne])
      moreover have "s ! 0 \<le> s ! q"
      proof (cases "q = 0")
        case True
        then show ?thesis by simp
      next
        case False
        then have "s ! 0 < s ! q"
          using srt that(2) by (simp add: sorted_wrt_iff_nth_less)
        then show ?thesis by simp
      qed
      then have "hd s \<le> s ! q"
        by (simp add: hd_conv_nth [OF ne])
      ultimately have "s ! p < 2 * s ! q" using oct by linarith
      then have "s ! p * 2 ^ i < s ! q * 2 ^ Suc i" by simp
      also have "\<dots> \<le> s ! q * 2 ^ j"
        using ij pq by (simp add: Suc_leI power_increasing del: power_Suc)
      finally show ?thesis .
    next
      assume "i = j \<and> p < q"
      then show ?thesis
        using srt that(2) by (simp add: sorted_wrt_iff_nth_less)
    qed
  qed
  show ?thesis
    unfolding sorted_wrt_iff_nth_less
  proof (intro allI impI)
    fix a b assume ab: "a < b" and b: "b < length (calc_all_notes s)"
    then have bn: "b < ?n * ?n" and an: "a < ?n * ?n"
      by (simp_all add: length_calc_all_notes)
    have "a div ?n \<le> b div ?n" using ab by (simp add: div_le_mono)
    moreover have "a mod ?n < b mod ?n" if eq: "a div ?n = b div ?n"
    proof -
      have "a div ?n * ?n + a mod ?n = a" "b div ?n * ?n + b mod ?n = b"
        by (rule div_mult_mod_eq)+
      then show ?thesis using ab unfolding eq by linarith
    qed
    ultimately have "a div ?n < b div ?n \<or> (a div ?n = b div ?n \<and> a mod ?n < b mod ?n)"
      by linarith
    then show "calc_all_notes s ! a < calc_all_notes s ! b"
      using entry [OF an] entry [OF bn] step [of "a mod ?n" "b mod ?n" "a div ?n" "b div ?n"] n0
      by simp
  qed
qed

lemma cf_1_sorted: "sorted_wrt (<) cf_1"
  by (simp add: cf_1_def)

subsection \<open>What the chord resolver computes\<close>

lemma list_get_nonneg:
  "0 \<le> k \<Longrightarrow> list_get xs (int pos + k)
     = (if int pos + k < int (length xs) then Inr (xs ! (pos + nat k)) else Inl IndexError)"
  by (simp add: list_get_def nat_add_distrib)

lemma chord_loop_nonneg:
  "\<forall>k\<in>set chord. 0 \<le> k \<Longrightarrow>
     chord_loop an pos chord acc
       = (if \<forall>k\<in>set chord. int pos + k < int (length an)
          then Inr (acc @ map (\<lambda>k. an ! (pos + nat k)) chord) else Inl IndexError)"
proof (induction chord arbitrary: acc)
  case Nil
  then show ?case by simp
next
  case (Cons k chord)
  then have "0 \<le> k" by simp
  with Cons show ?case
    by (simp add: list_get_nonneg)
qed

lemma chords_loop_nonneg:
  "\<forall>k\<in>set (concat civs). 0 \<le> k \<Longrightarrow>
     chords_loop an pos civs acc
       = (if \<forall>k\<in>set (concat civs). int pos + k < int (length an)
          then Inr (acc @ map (map (\<lambda>k. an ! (pos + nat k))) civs) else Inl IndexError)"
proof (induction civs arbitrary: acc)
  case Nil
  then show ?case by simp
next
  case (Cons chord civs)
  then have c: "\<forall>k\<in>set chord. 0 \<le> k" and r: "\<forall>k\<in>set (concat civs). 0 \<le> k"
    by simp_all
  show ?case
    using Cons.IH [OF r] by (auto simp: chord_loop_nonneg [OF c])
qed

lemma find_pos_nth:
  "distinct xs \<Longrightarrow> p < length xs \<Longrightarrow> find_pos xs (xs ! p) n = n + p"
proof (induction xs arbitrary: p n)
  case Nil
  then show ?case by simp
next
  case (Cons x xs)
  show ?case
  proof (cases p)
    case 0
    then show ?thesis by simp
  next
    case (Suc q)
    with Cons.prems have "xs ! q \<in> set xs" "x \<notin> set xs" by simp_all
    then have "x \<noteq> xs ! q" by blast
    with Suc Cons show ?thesis by simp
  qed
qed

lemma find_pos_absent: "f \<notin> set xs \<Longrightarrow> find_pos xs f n = n + length xs"
  by (induction xs arbitrary: n) auto

lemma fold_upd_map_of:
  fixes m :: "'k \<rightharpoonup> 'v"
  shows "fold (\<lambda>(k, v) d. d(k \<mapsto> v)) kvs m = m ++ map_of (rev kvs)"
proof (induction kvs arbitrary: m)
  case Nil
  then show ?case by simp
next
  case (Cons kv kvs)
  obtain k v where kv: "kv = (k, v)" by (cases kv)
  have "fold (\<lambda>(k, v) d. d(k \<mapsto> v)) (kv # kvs) m
          = fold (\<lambda>(k, v) d. d(k \<mapsto> v)) kvs (m(k \<mapsto> v))"
    unfolding kv by (simp only: fold_simps prod.case)
  also have "\<dots> = m(k \<mapsto> v) ++ map_of (rev kvs)"
    by (rule Cons.IH)
  also have "\<dots> = m ++ map_of (rev (kv # kvs))"
    by (simp add: kv fun_eq_iff map_add_def split: option.splits)
  finally show ?case .
qed

lemma py_dict_map_of: "py_dict kvs = map_of (rev kvs)"
  by (simp add: py_dict_def fold_upd_map_of)

lemma map_of_rev_distinct:
  assumes "distinct (map fst kvs)"
  shows "map_of (rev kvs) = map_of kvs"
proof
  fix k
  show "map_of (rev kvs) k = map_of kvs k"
  proof (cases "map_of kvs k")
    case None
    then have "k \<notin> fst ` set kvs" by (simp add: map_of_eq_None_iff)
    then have "map_of (rev kvs) k = None" by (simp add: map_of_eq_None_iff)
    with None show ?thesis by simp
  next
    case (Some v)
    then have "(k, v) \<in> set (rev kvs)" by (simp add: map_of_SomeD)
    moreover have "distinct (map fst (rev kvs))"
      using assms by (simp add: rev_map [symmetric])
    ultimately have "map_of (rev kvs) k = Some v" by (rule map_of_is_SomeI [rotated])
    with Some show ?thesis by simp
  qed
qed

lemma py_dict_distinct: "distinct (map fst kvs) \<Longrightarrow> py_dict kvs = map_of kvs"
  by (simp add: py_dict_map_of map_of_rev_distinct)

lemma distinct_fst_zip: "distinct xs \<Longrightarrow> distinct (map fst (zip xs ys))"
  by (simp add: map_fst_zip_take)

lemma table_lookup:
  assumes "distinct names" "p < length names" "p < length an"
  shows "dict_get (py_dict (zip names an)) (names ! p) = Inr (an ! p)"
proof -
  have d: "distinct (map fst (zip names an))" using assms(1) by (rule distinct_fst_zip)
  have "(names ! p, an ! p) \<in> set (zip names an)"
    using assms(2,3) by (auto simp: set_zip)
  then have "map_of (zip names an) (names ! p) = Some (an ! p)"
    using d by simp
  then show ?thesis by (simp add: dict_get_def py_dict_distinct [OF d])
qed

lemma table_lookup_absent:
  assumes "distinct names" "root_note \<notin> set names"
  shows "dict_get (py_dict (zip names an)) root_note = Inl KeyError"
proof -
  have d: "distinct (map fst (zip names an))" using assms(1) by (rule distinct_fst_zip)
  have "root_note \<notin> fst ` set (zip names an)"
    using assms(2) by (auto dest: set_zip_leftD)
  then have "map_of (zip names an) root_note = None"
    by (simp add: map_of_eq_None_iff)
  then show ?thesis by (simp add: dict_get_def py_dict_distinct [OF d])
qed

lemma calc_chord_freqs_table:
  assumes "distinct names" "distinct an" "p < length names" "p < length an"
    and "\<forall>k\<in>set (concat civs). 0 \<le> k"
  shows "calc_chord_freqs cnames civs (names ! p) (py_dict (zip names an)) an
           = (if \<forall>k\<in>set (concat civs). int p + k < int (length an)
              then Inr (map (map (\<lambda>k. an ! (p + nat k))) civs) else Inl IndexError)"
  using assms
  by (simp add: calc_chord_freqs_def table_lookup find_pos_nth chords_loop_nonneg)

subsection \<open>Claims about the table builder\<close>

text \<open>
  Claim C2.  Given the 12 base frequencies, \<open>calc_all_notes\<close> emits, for each octave index
  \<open>i\<close> in \<open>[0, 12)\<close> in increasing order and for each base frequency \<open>f\<close> in the order of the
  input (C, C#, D, ..., B), one entry \<open>f * 2^i\<close>.  The octave count is the length of the
  input scale, 12 here.  The table has 144 entries and entry \<open>i * 12 + p\<close> is the \<open>p\<close>-th
  base frequency times \<open>2^i\<close>.
\<close>

theorem calc_all_notes_octaves:
  assumes "length input_scale = 12"
  shows "calc_all_notes input_scale
           = concat (map (\<lambda>i. map (\<lambda>f. f * 2 ^ i) input_scale) [0..<12]) \<and>
         length (calc_all_notes input_scale) = 144 \<and>
         (\<forall>i<12. \<forall>p<12. calc_all_notes input_scale ! (i * 12 + p) = input_scale ! p * 2 ^ i)"
  using assms nth_calc_all_notes [of _ input_scale]
  by (simp add: calc_all_notes_concat calc_octave_def length_concat_blocks)

theorem calc_all_notes_octaves_witness:
  "length cf_1 = 12 \<and> calc_all_notes cf_1 ! (4 * 12 + 9) = 220"
proof -
  have l: "length cf_1 = 12" by (simp add: cf_1_def)
  have h: "\<forall>i<12. \<forall>p<12. calc_all_notes cf_1 ! (i * 12 + p) = cf_1 ! p * 2 ^ i"
    using calc_all_notes_octaves [OF l] by blast
  have "calc_all_notes cf_1 ! (4 * 12 + 9) = cf_1 ! 9 * 2 ^ 4"
    using h [rule_format, of 4 9] by simp
  also have "\<dots> = 220" by (simp add: cf_1_def)
  finally show ?thesis using l by simp
qed

text \<open>
  Claim C3.  The table generated from the program's base frequencies \<open>cf_1\<close> is strictly
  increasing in the order of generation; in particular the last pitch class of octave \<open>i\<close>
  lies strictly below the first pitch class of octave \<open>i + 1\<close>, for each of the 11 octave
  boundaries.
\<close>

theorem calc_all_notes_cf_1_increasing:
  "sorted_wrt (<) (calc_all_notes cf_1) \<and>
   list_all (\<lambda>i. calc_all_notes cf_1 ! (i * 12 + 11) < calc_all_notes cf_1 ! (Suc i * 12 + 0))
     [0..<11]"
proof
  show s: "sorted_wrt (<) (calc_all_notes cf_1)"
    by (rule calc_all_notes_strict_mono) (simp_all add: cf_1_def)
  show "list_all (\<lambda>i. calc_all_notes cf_1 ! (i * 12 + 11) < calc_all_notes cf_1 ! (Suc i * 12 + 0)) [0..<11]"
    unfolding list_all_iff
  proof
    fix i assume "i \<in> set [0..<11]"
    then have "i < 11" by simp
    then have "i * 12 + 11 < Suc i * 12 + 0" "Suc i * 12 + 0 < length (calc_all_notes cf_1)"
      by (simp_all add: length_calc_all_notes length_cf_1)
    then show "calc_all_notes cf_1 ! (i * 12 + 11) < calc_all_notes cf_1 ! (Suc i * 12 + 0)"
      using s unfolding sorted_wrt_iff_nth_less by blast
  qed
qed

text \<open>
  Claim C4.  In the table generated from 12 base frequencies, the entry of pitch class \<open>p\<close>
  in octave \<open>i + 1\<close> is exactly twice the entry of pitch class \<open>p\<close> in octave \<open>i\<close>: the entry
  at index \<open>(i + 1) * 12 + p\<close> is twice the entry at index \<open>i * 12 + p\<close>.
\<close>

theorem octave_doubling:
  assumes "length input_scale = 12" "i + 1 < 12" "p < 12"
  shows "calc_all_notes input_scale ! ((i + 1) * 12 + p)
           = 2 * calc_all_notes input_scale ! (i * 12 + p)"
  using assms nth_calc_all_notes [of i input_scale p] nth_calc_all_notes [of "Suc i" input_scale p]
  by simp

theorem octave_doubling_witness:
  "length cf_1 = 12 \<and> (4::nat) + 1 < 12 \<and> (9::nat) < 12 \<and>
   calc_all_notes cf_1 ! ((4 + 1) * 12 + 9) = 2 * calc_all_notes cf_1 ! (4 * 12 + 9)"
proof -
  have l: "length cf_1 = 12" by (simp add: cf_1_def)
  show ?thesis using l octave_doubling [OF l, of 4 9] by simp
qed




subsection \<open>Claims about the chord resolver\<close>

text \<open>
  Claim C1.  Take a table whose names are distinct and whose frequencies are strictly
  ascending, a root name at position \<open>p\<close> of the table, and chords made of non-negative
  intervals whose positions \<open>p + k\<close> stay inside the table.  Then the dictionary maps the
  root to the frequency at \<open>p\<close>, the position scan returns \<open>p\<close>, and \<open>calc_chord_freqs\<close>
  returns for each chord, in the given order of its intervals \<open>k\<close>, the frequencies at
  positions \<open>p + k\<close>.  For the root-only chord \<open>[0]\<close> the result is the root's own frequency.
\<close>

theorem resolve_chord_positions:
  fixes freqs :: "'a::linorder list"
  assumes "distinct names" and "sorted_wrt (<) freqs"
    and "p < length names" and "p < length freqs"
    and "\<forall>k\<in>set (concat civs). 0 \<le> k \<and> int p + k < int (length freqs)"
  shows "dict_get (py_dict (zip names freqs)) (names ! p) = Inr (freqs ! p) \<and>
         find_pos freqs (freqs ! p) 0 = p \<and>
         calc_chord_freqs cnames civs (names ! p) (py_dict (zip names freqs)) freqs
           = Inr (map (map (\<lambda>k. freqs ! (p + nat k))) civs) \<and>
         calc_chord_freqs cnames [[0]] (names ! p) (py_dict (zip names freqs)) freqs
           = Inr [[freqs ! p]]"
proof -
  have d: "distinct freqs"
    using assms(2) by (simp add: strict_sorted_iff)
  have nn: "\<forall>k\<in>set (concat civs). 0 \<le> k"
    and ir: "\<forall>k\<in>set (concat civs). int p + k < int (length freqs)"
    using assms(5) by simp_all
  have "calc_chord_freqs cnames civs (names ! p) (py_dict (zip names freqs)) freqs
          = Inr (map (map (\<lambda>k. freqs ! (p + nat k))) civs)"
    using calc_chord_freqs_table [OF assms(1) d assms(3,4) nn] ir by simp
  moreover have "calc_chord_freqs cnames [[0]] (names ! p) (py_dict (zip names freqs)) freqs
          = Inr [[freqs ! p]]"
    using calc_chord_freqs_table [OF assms(1) d assms(3,4), of "[[0]]"] assms(4) by simp
  ultimately show ?thesis
    using table_lookup [OF assms(1,3,4)] find_pos_nth [OF d assms(4), of 0] by simp
qed

theorem resolve_chord_positions_witness:
  "distinct [''C4'', ''Cs4'', ''D4'', ''Ds4'', ''E4''] \<and>
   sorted_wrt (<) [1, 2, 3, 4, 5 :: real] \<and>
   calc_chord_freqs [] [[0, 1, 3]] ''Cs4''
       (py_dict (zip [''C4'', ''Cs4'', ''D4'', ''Ds4'', ''E4''] [1, 2, 3, 4, 5 :: real]))
       [1, 2, 3, 4, 5]
     = Inr [[2, 3, 5]]"
  using resolve_chord_positions
          [of "[''C4'', ''Cs4'', ''D4'', ''Ds4'', ''E4'']" "[1, 2, 3, 4, 5 :: real]" 1
              "[[0, 1, 3]]" "[]"]
  by simp

text \<open>
  Claim C6.  For a table with distinct names and strictly ascending frequencies, at least
  one frequency per name, and non-negative intervals: resolution fails with \<open>KeyError\<close>
  (UnknownRoot) exactly when the root name is not in the table; for a root at position
  \<open>p\<close> it fails with \<open>IndexError\<close> (IntervalOutOfRange) exactly when some interval \<open>k\<close> has
  \<open>p + k\<close> beyond the last index, and otherwise it succeeds with the frequencies at the
  positions \<open>p + k\<close>, none truncated or wrapped.
\<close>

theorem resolve_chord_errors:
  fixes freqs :: "'a::linorder list"
  assumes "distinct names" and "sorted_wrt (<) freqs"
    and "length names \<le> length freqs"
    and "\<forall>k\<in>set (concat civs). 0 \<le> k"
  shows "(calc_chord_freqs cnames civs r (py_dict (zip names freqs)) freqs = Inl KeyError
            \<longleftrightarrow> r \<notin> set names) \<and>
         (p < length names \<and> r = names ! p \<longrightarrow>
            (calc_chord_freqs cnames civs r (py_dict (zip names freqs)) freqs = Inl IndexError
               \<longleftrightarrow> (\<exists>k\<in>set (concat civs). int (length freqs) \<le> int p + k)) \<and>
            ((\<forall>k\<in>set (concat civs). int p + k < int (length freqs)) \<longrightarrow>
               calc_chord_freqs cnames civs r (py_dict (zip names freqs)) freqs
                 = Inr (map (map (\<lambda>k. freqs ! (p + nat k))) civs)))"
proof -
  let ?res = "\<lambda>r. calc_chord_freqs cnames civs r (py_dict (zip names freqs)) freqs"
  have d: "distinct freqs"
    using assms(2) by (simp add: strict_sorted_iff)
  have present: "?res (names ! q)
       = (if \<forall>k\<in>set (concat civs). int q + k < int (length freqs)
          then Inr (map (map (\<lambda>k. freqs ! (q + nat k))) civs) else Inl IndexError)"
    if "q < length names" for q
  proof -
    from that assms(3) have "q < length freqs" by simp
    from calc_chord_freqs_table [OF assms(1) d that this assms(4)] show ?thesis .
  qed
  have absent: "?res r = Inl KeyError" if "r \<notin> set names"
    using table_lookup_absent [OF assms(1) that, of freqs] by (simp add: calc_chord_freqs_def)
  have "?res r \<noteq> Inl KeyError" if "r \<in> set names"
  proof -
    from that obtain q where "q < length names" "r = names ! q"
      by (auto simp: in_set_conv_nth)
    then show ?thesis using present [of q] by simp
  qed
  with absent have key: "?res r = Inl KeyError \<longleftrightarrow> r \<notin> set names" by blast
  have "(?res r = Inl IndexError
           \<longleftrightarrow> (\<exists>k\<in>set (concat civs). int (length freqs) \<le> int p + k)) \<and>
        ((\<forall>k\<in>set (concat civs). int p + k < int (length freqs)) \<longrightarrow>
           ?res r = Inr (map (map (\<lambda>k. freqs ! (p + nat k))) civs))"
    if "p < length names" "r = names ! p"
  proof (cases "\<forall>k\<in>set (concat civs). int p + k < int (length freqs)")
    case True
    then have "\<not> (\<exists>k\<in>set (concat civs). int (length freqs) \<le> int p + k)"
      by (meson not_less)
    with True present [OF that(1)] that(2) show ?thesis by simp
  next
    case False
    then have "\<exists>k\<in>set (concat civs). int (length freqs) \<le> int p + k"
      by (meson not_less)
    with False present [OF that(1)] that(2) show ?thesis by simp
  qed
  with key show ?thesis by blast
qed

theorem resolve_chord_errors_witness:
  "distinct [''C4'', ''Cs4'', ''D4''] \<and> sorted_wrt (<) [1, 2, 3 :: real] \<and>
   calc_chord_freqs [] [[0, 1], [0, 2]] ''Z9'' (py_dict (zip [''C4'', ''Cs4'', ''D4''] [1, 2, 3 :: real]))
       [1, 2, 3] = Inl KeyError \<and>
   calc_chord_freqs [] [[0, 1], [0, 2]] ''Cs4'' (py_dict (zip [''C4'', ''Cs4'', ''D4''] [1, 2, 3 :: real]))
       [1, 2, 3] = Inl IndexError \<and>
   calc_chord_freqs [] [[0, 1], [0, 2]] ''C4'' (py_dict (zip [''C4'', ''Cs4'', ''D4''] [1, 2, 3 :: real]))
       [1, 2, 3] = Inr [[1, 2], [1, 3]]"
  using resolve_chord_errors
          [of "[''C4'', ''Cs4'', ''D4'']" "[1, 2, 3 :: real]" "[[0, 1], [0, 2]]" "[]" "''Z9''" 0]
        resolve_chord_errors
          [of "[''C4'', ''Cs4'', ''D4'']" "[1, 2, 3 :: real]" "[[0, 1], [0, 2]]" "[]" "''Cs4''" 1]
        resolve_chord_errors
          [of "[''C4'', ''Cs4'', ''D4'']" "[1, 2, 3 :: real]" "[[0, 1], [0, 2]]" "[]" "''C4''" 0]
  by simp

subsection \<open>The batch of \<open>chords\<close>: names, root loop and flattening\<close>

lemma fold_fold_append_const:
  "fold (\<lambda>x acc. fold (\<lambda>y acc. acc @ [g x y]) ys acc) xs acc
     = acc @ concat (map (\<lambda>x. map (g x) ys) xs)"
  using fold_fold_append [of g "\<lambda>_. ys" xs acc] by simp

lemma combine_suffixes_first:
  "combine_prefix_suffix ps ss ''suffixes_first''
     = concat (map (\<lambda>pre. map (\<lambda>suff. pre @ suff) ss) ps)"
  by (simp add: combine_prefix_suffix_def fold_fold_append_const)

lemma combine_prefixes_first:
  "combine_prefix_suffix ps ss ''prefixes_first''
     = concat (map (\<lambda>suff. map (\<lambda>pre. pre @ suff) ps) ss)"
  by (simp add: combine_prefix_suffix_def fold_fold_append_const)

lemma flatten_loop_concat: "flatten_loop temp acc = acc @ concat temp"
proof -
  have "fold (\<lambda>outer acc. fold (\<lambda>inner acc. acc @ [inner]) outer acc) temp acc
          = acc @ concat (map (\<lambda>outer. map (\<lambda>inner. inner) outer) temp)"
    by (rule fold_fold_append [of "\<lambda>outer inner. inner" "\<lambda>outer. outer" temp acc])
  then show ?thesis by (simp add: flatten_loop_def)
qed

lemma length_concat_uniform:
  "\<forall>xs\<in>set xss. length xs = n \<Longrightarrow> length (concat xss) = length xss * n"
  by (induction xss) simp_all

lemma nth_concat_uniform:
  "\<forall>xs\<in>set xss. length xs = n \<Longrightarrow> r < length xss \<Longrightarrow> d < n \<Longrightarrow>
     concat xss ! (r * n + d) = xss ! r ! d"
proof (induction xss arbitrary: r)
  case Nil
  then show ?case by simp
next
  case (Cons xs xss)
  show ?case
  proof (cases r)
    case 0
    with Cons.prems show ?thesis by (simp add: nth_append)
  next
    case (Suc q)
    with Cons.prems have "concat xss ! (q * n + d) = xss ! q ! d"
      by (intro Cons.IH) simp_all
    with Suc Cons.prems show ?thesis by (simp add: nth_append)
  qed
qed

lemma chords_loop_Inr:
  "chords_loop an pos civs acc = Inr res \<Longrightarrow>
     \<exists>rs. res = acc @ rs \<and> length rs = length civs \<and>
          (\<forall>d<length civs. chord_loop an pos (civs ! d) [] = Inr (rs ! d))"
proof (induction civs arbitrary: acc)
  case Nil
  then show ?case by simp
next
  case (Cons chord civs)
  from Cons.prems obtain cf where cf: "chord_loop an pos chord [] = Inr cf"
    and rest: "chords_loop an pos civs (acc @ [cf]) = Inr res"
    by (auto split: sum.splits)
  from Cons.IH [OF rest] obtain rs where rs: "res = (acc @ [cf]) @ rs" "length rs = length civs"
    "\<forall>d<length civs. chord_loop an pos (civs ! d) [] = Inr (rs ! d)"
    by blast
  have "\<forall>d<length (chord # civs). chord_loop an pos ((chord # civs) ! d) [] = Inr ((cf # rs) ! d)"
  proof (intro allI impI)
    fix d assume "d < length (chord # civs)"
    then show "chord_loop an pos ((chord # civs) ! d) [] = Inr ((cf # rs) ! d)"
      using cf rs(3) by (cases d) simp_all
  qed
  with rs(1,2) show ?case
    by (intro exI [of _ "cf # rs"]) simp
qed

lemma calc_chord_freqs_single:
  assumes "calc_chord_freqs cnames civs root_note ndict an = Inr res"
  shows "length res = length civs \<and>
         (\<forall>d<length civs. calc_chord_freqs cnames' [civs ! d] root_note ndict an = Inr [res ! d])"
proof -
  from assms obtain f where f: "dict_get ndict root_note = Inr f"
    and loop: "chords_loop an (find_pos an f 0) civs [] = Inr res"
    by (auto simp: calc_chord_freqs_def split: sum.splits)
  from chords_loop_Inr [OF loop] have len: "length res = length civs"
    and each: "\<forall>d<length civs. chord_loop an (find_pos an f 0) (civs ! d) [] = Inr (res ! d)"
    by auto
  from each f have "\<forall>d<length civs. calc_chord_freqs cnames' [civs ! d] root_note ndict an = Inr [res ! d]"
    by (simp add: calc_chord_freqs_def)
  with len show ?thesis by simp
qed

lemma roots_loop_Inr:
  "roots_loop cnames civs ndict an roots acc = Inr temp \<Longrightarrow>
     \<exists>ts. temp = acc @ ts \<and> length ts = length roots \<and>
          (\<forall>r<length roots. calc_chord_freqs cnames civs (roots ! r) ndict an = Inr (ts ! r))"
proof (induction roots arbitrary: acc)
  case Nil
  then show ?case by simp
next
  case (Cons root_note roots)
  from Cons.prems obtain res where res: "calc_chord_freqs cnames civs root_note ndict an = Inr res"
    and rest: "roots_loop cnames civs ndict an roots (acc @ [res]) = Inr temp"
    by (auto split: sum.splits)
  from Cons.IH [OF rest] obtain ts where ts: "temp = (acc @ [res]) @ ts" "length ts = length roots"
    "\<forall>r<length roots. calc_chord_freqs cnames civs (roots ! r) ndict an = Inr (ts ! r)"
    by blast
  have "\<forall>r<length (root_note # roots).
          calc_chord_freqs cnames civs ((root_note # roots) ! r) ndict an = Inr ((res # ts) ! r)"
  proof (intro allI impI)
    fix r assume "r < length (root_note # roots)"
    then show "calc_chord_freqs cnames civs ((root_note # roots) ! r) ndict an = Inr ((res # ts) ! r)"
      using res ts(3) by (cases r) simp_all
  qed
  with ts(1,2) show ?case
    by (intro exI [of _ "res # ts"]) simp
qed

lemma batch_order:
  assumes lp: "length prefixes = length roots" and ls: "length suffixes = length civs"
    and loop: "roots_loop cnames civs ndict an roots [] = Inr temp"
    and r: "r < length roots" and d: "d < length civs"
  shows "length (zip (combine_prefix_suffix prefixes suffixes ''suffixes_first'')
                     (flatten_loop temp []))
           = length roots * length civs \<and>
         (\<exists>fs. calc_chord_freqs cnames [civs ! d] (roots ! r) ndict an = Inr [fs] \<and>
               zip (combine_prefix_suffix prefixes suffixes ''suffixes_first'')
                   (flatten_loop temp [])
                 ! (r * length civs + d)
               = (prefixes ! r @ suffixes ! d, fs) \<and>
               (distinct (combine_prefix_suffix prefixes suffixes ''suffixes_first'') \<longrightarrow>
                  dict_get (py_dict (zip (combine_prefix_suffix prefixes suffixes
                                            ''suffixes_first'')
                                         (flatten_loop temp [])))
                           (prefixes ! r @ suffixes ! d)
                    = Inr fs))"
proof -
  let ?names = "combine_prefix_suffix prefixes suffixes ''suffixes_first''"
  let ?flat = "flatten_loop temp []"
  let ?n = "length civs"
  from roots_loop_Inr [OF loop]
  have lt: "length temp = length roots"
    and each: "\<forall>r<length roots. calc_chord_freqs cnames civs (roots ! r) ndict an = Inr (temp ! r)"
    by auto
  have blocks: "\<forall>xs\<in>set temp. length xs = ?n"
  proof
    fix xs assume "xs \<in> set temp"
    then obtain q where "q < length temp" "xs = temp ! q"
      by (auto simp: in_set_conv_nth)
    with lt each have "calc_chord_freqs cnames civs (roots ! q) ndict an = Inr xs" by simp
    from calc_chord_freqs_single [OF this] show "length xs = ?n" by simp
  qed
  have nblocks: "\<forall>xs\<in>set (map (\<lambda>pre. map (\<lambda>suff. pre @ suff) suffixes) prefixes). length xs = ?n"
    using ls by auto
  have idx: "r * ?n + d < length roots * ?n"
  proof -
    have "r * ?n + d < Suc r * ?n" using d by simp
    also have "\<dots> \<le> length roots * ?n" using r by (intro mult_le_mono1) simp
    finally show ?thesis .
  qed
  have lnames: "length ?names = length roots * ?n"
    using length_concat_uniform [OF nblocks] lp by (simp add: combine_suffixes_first)
  have lflat: "length ?flat = length roots * ?n"
    using length_concat_uniform [OF blocks] lt by (simp add: flatten_loop_concat)
  have name: "?names ! (r * ?n + d) = prefixes ! r @ suffixes ! d"
    using nth_concat_uniform [OF nblocks, of r d] r d lp ls by (simp add: combine_suffixes_first)
  have fl: "?flat ! (r * ?n + d) = temp ! r ! d"
    using nth_concat_uniform [OF blocks, of r d] r d lt by (simp add: flatten_loop_concat)
  from each r have "calc_chord_freqs cnames civs (roots ! r) ndict an = Inr (temp ! r)" by simp
  from calc_chord_freqs_single [OF this, of cnames] d
  have single: "calc_chord_freqs cnames [civs ! d] (roots ! r) ndict an = Inr [temp ! r ! d]"
    by simp
  have entry: "zip ?names ?flat ! (r * ?n + d) = (prefixes ! r @ suffixes ! d, temp ! r ! d)"
    using idx lnames lflat name fl by simp
  have lookup: "dict_get (py_dict (zip ?names ?flat)) (prefixes ! r @ suffixes ! d)
                  = Inr (temp ! r ! d)"
    if dn: "distinct ?names"
  proof -
    have dk: "distinct (map fst (zip ?names ?flat))"
      by (rule distinct_fst_zip [OF dn])
    have "r * ?n + d < length (zip ?names ?flat)"
      using idx lnames lflat by simp
    then have "zip ?names ?flat ! (r * ?n + d) \<in> set (zip ?names ?flat)"
      by (rule nth_mem)
    then have "(prefixes ! r @ suffixes ! d, temp ! r ! d) \<in> set (zip ?names ?flat)"
      by (simp only: entry)
    then have "map_of (zip ?names ?flat) (prefixes ! r @ suffixes ! d) = Some (temp ! r ! d)"
      using dk by (rule map_of_is_SomeI [rotated])
    then show ?thesis
      by (simp add: dict_get_def py_dict_distinct [OF dk])
  qed
  have "length (zip ?names ?flat) = length roots * ?n"
    using lnames lflat by simp
  with single entry lookup show ?thesis by blast
qed



subsection \<open>The table of \<open>chords\<close>\<close>

lemma all_notes_sorted: "sorted_wrt (<) all_notes"
  unfolding all_notes_def
  by (rule calc_all_notes_strict_mono) (simp_all add: cf_1_def)

lemma all_notes_distinct: "distinct all_notes"
  using all_notes_sorted by (simp add: strict_sorted_iff)

lemma length_all_notes: "length all_notes = 144"
  by (simp add: all_notes_def length_calc_all_notes length_cf_1)

lemma length_note_names: "length note_names = 132"
  by (simp add: note_names_def combine_prefixes_first note_name_prefixes_def
        note_name_suffixes_def)

lemma distinct_note_names: "distinct note_names"
  by (simp add: note_names_def combine_prefixes_first note_name_prefixes_def
        note_name_suffixes_def)

lemma zip_take_right: "zip xs ys = zip xs (take (length xs) ys)"
proof (induction xs arbitrary: ys)
  case Nil
  then show ?case by simp
next
  case (Cons x xs)
  then show ?case by (cases ys) simp_all
qed

lemma notes_dict_zip: "notes_dict = map_of (zip note_names (take 132 all_notes))"
proof -
  have "notes_dict = map_of (zip note_names all_notes)"
    unfolding notes_dict_def
    by (rule py_dict_distinct) (rule distinct_fst_zip [OF distinct_note_names])
  then show ?thesis
    using zip_take_right [of note_names all_notes] by (simp add: length_note_names)
qed

text \<open>
  Claim C9 says that every generated frequency is paired with exactly one name, the name
  list and the frequency list having the same length.  In \<open>chords\<close> the names are distinct,
  but there are 132 of them (11 octave suffixes) for 144 frequencies (12 octaves):
  \<open>zip\<close> stops at the shorter list, so the dictionary has 132 keys, its values are the
  first 132 frequencies and the 12 frequencies of the last octave have no name.
\<close>

theorem note_names_shorter_than_all_notes:
  "length note_names = 132 \<and> length all_notes = 144 \<and> distinct note_names \<and>
   dom notes_dict = set note_names \<and> card (dom notes_dict) = 132 \<and>
   ran notes_dict = set (take 132 all_notes) \<and>
   set (drop 132 all_notes) \<inter> ran notes_dict = {} \<and> length (drop 132 all_notes) = 12"
proof -
  have l: "length note_names = length (take 132 all_notes)"
    by (simp add: length_note_names length_all_notes)
  have d: "dom notes_dict = set note_names"
    unfolding notes_dict_zip using l by (rule dom_map_of_zip)
  have r: "ran notes_dict = set (take 132 all_notes)"
    unfolding notes_dict_zip using l distinct_note_names by (rule ran_map_of_zip)
  have c: "card (set note_names) = 132"
    using distinct_card [OF distinct_note_names] by (simp add: length_note_names)
  have "set (take 132 all_notes) \<inter> set (drop 132 all_notes) = {}"
    using all_notes_distinct by (rule set_take_disj_set_drop_if_distinct) simp
  then have "set (drop 132 all_notes) \<inter> set (take 132 all_notes) = {}"
    by blast
  with d r c show ?thesis
    by (simp add: length_note_names length_all_notes distinct_note_names)
qed

lemma chord_intervals_nonneg: "\<forall>k\<in>set (concat chord_intervals). 0 \<le> k"
  by (simp add: chord_intervals_def interval_defs)

lemma chord_intervals_le: "\<forall>k\<in>set (concat chord_intervals). k \<le> 21"
  by (simp add: chord_intervals_def interval_defs)

lemma calc_chord_freqs_program:
  assumes "p < 111"
  shows "calc_chord_freqs cnames chord_intervals (note_names ! p) notes_dict all_notes
           = Inr (map (map (\<lambda>k. all_notes ! (p + nat k))) chord_intervals)"
proof -
  have "\<forall>k\<in>set (concat chord_intervals). int p + k < int (length all_notes)"
    using chord_intervals_le assms by (fastforce simp: length_all_notes)
  moreover have "p < length note_names" "p < length all_notes"
    using assms by (simp_all add: length_note_names length_all_notes)
  ultimately show ?thesis
    unfolding notes_dict_def
    using calc_chord_freqs_table [OF distinct_note_names all_notes_distinct _ _ chord_intervals_nonneg,
            of p cnames]
    by simp
qed

lemma roots_in_table:
  "set (root_note_c4 # middle_c_chromatic) \<subseteq> set (take 111 note_names)"
  by (simp add: note_names_def combine_prefixes_first note_name_prefixes_def
        note_name_suffixes_def middle_c_chromatic_def root_note_c4_def)

lemma root_resolves:
  assumes "root_note \<in> set (root_note_c4 # middle_c_chromatic)"
  shows "\<exists>res. calc_chord_freqs cnames chord_intervals root_note notes_dict all_notes = Inr res"
proof -
  from assms roots_in_table have "root_note \<in> set (take 111 note_names)" by blast
  then obtain p where "p < 111" "root_note = note_names ! p"
    by (auto simp: in_set_conv_nth length_note_names)
  with calc_chord_freqs_program [of p cnames] show ?thesis by simp
qed

lemma roots_loop_total:
  "\<forall>root_note\<in>set roots. \<exists>res. calc_chord_freqs cnames civs root_note ndict an = Inr res \<Longrightarrow>
     \<exists>temp. roots_loop cnames civs ndict an roots acc = Inr temp"
proof (induction roots arbitrary: acc)
  case Nil
  then show ?case by simp
next
  case (Cons root_note roots)
  then obtain res where "calc_chord_freqs cnames civs root_note ndict an = Inr res" by auto
  moreover from Cons have "\<exists>temp. roots_loop cnames civs ndict an roots (acc @ [res]) = Inr temp"
    by simp
  ultimately show ?case by simp
qed

lemma chords_returns_dict:
  "(\<exists>d. chords ''c'' = Inr (Some d)) \<and> (\<exists>d. chords ''all'' = Inr (Some d))"
proof -
  obtain c where c: "calc_chord_freqs chord_names chord_intervals root_note_c4 notes_dict all_notes = Inr c"
    using root_resolves [of root_note_c4 chord_names] by auto
  have "\<forall>root_note\<in>set middle_c_chromatic.
          \<exists>res. calc_chord_freqs chord_names chord_intervals root_note notes_dict all_notes = Inr res"
    using root_resolves [of _ chord_names] by simp
  from roots_loop_total [OF this, of "[]"] obtain temp
    where "roots_loop chord_names chord_intervals notes_dict all_notes middle_c_chromatic [] = Inr temp"
    by blast
  with c show ?thesis
    by (simp add: chords_def)
qed

text \<open>
  The program's own batch: its 300 chord names are distinct, so in the dictionary returned
  by \<open>chords('all')\<close> the name made of prefix \<open>r\<close> and suffix \<open>d\<close> maps to the frequencies of
  chord \<open>d\<close> resolved for the \<open>r\<close>-th root of \<open>middle_c_chromatic\<close>.
\<close>

lemma distinct_chord_names: "distinct chord_names"
  by (simp add: chord_names_def combine_suffixes_first chord_name_prefixes_def
        chord_name_suffixes_def)

lemma chords_all_order:
  assumes "r < 12" and "d < 25"
  shows "\<exists>dict fs. chords ''all'' = Inr (Some dict) \<and>
           calc_chord_freqs chord_names [chord_intervals ! d] (middle_c_chromatic ! r)
             notes_dict all_notes = Inr [fs] \<and>
           dict_get dict (chord_name_prefixes ! r @ chord_name_suffixes ! d) = Inr fs"
proof -
  obtain c where c: "calc_chord_freqs chord_names chord_intervals root_note_c4 notes_dict all_notes = Inr c"
    using root_resolves [of root_note_c4 chord_names] by auto
  have "\<forall>root_note\<in>set middle_c_chromatic.
          \<exists>res. calc_chord_freqs chord_names chord_intervals root_note notes_dict all_notes = Inr res"
    using root_resolves [of _ chord_names] by simp
  from roots_loop_total [OF this, of "[]"] obtain temp
    where temp: "roots_loop chord_names chord_intervals notes_dict all_notes middle_c_chromatic [] = Inr temp"
    by blast
  have res: "chords ''all'' = Inr (Some (py_dict (zip chord_names (flatten_loop temp []))))"
    using c temp by (simp add: chords_def)
  have lp: "length chord_name_prefixes = length middle_c_chromatic"
    by (simp add: chord_name_prefixes_def middle_c_chromatic_def)
  have ls: "length chord_name_suffixes = length chord_intervals"
    by (simp add: chord_name_suffixes_def chord_intervals_def)
  have lr: "length middle_c_chromatic = 12" by (simp add: middle_c_chromatic_def)
  have lc: "length chord_intervals = 25" by (simp add: chord_intervals_def)
  have dn: "distinct (combine_prefix_suffix chord_name_prefixes chord_name_suffixes ''suffixes_first'')"
    using distinct_chord_names by (simp add: chord_names_def)
  from batch_order [OF lp ls temp, of r d] assms lr lc res dn
  show ?thesis
    by (auto simp: chord_names_def)
qed

text \<open>
  Claim C10.  For every argument other than \<open>'c'\<close> and \<open>'all'\<close>, \<open>chords\<close> runs through
  its whole computation without raising and then falls through both \<open>if\<close> statements: it
  returns \<open>None\<close>, neither an exception nor a dictionary.
\<close>

theorem chords_other_range:
  assumes "range_arg \<noteq> ''c''" and "range_arg \<noteq> ''all''"
  shows "chords range_arg = Inr None"
proof -
  obtain c where c: "calc_chord_freqs chord_names chord_intervals root_note_c4 notes_dict all_notes = Inr c"
    using root_resolves [of root_note_c4 chord_names] by auto
  have "\<forall>root_note\<in>set middle_c_chromatic.
          \<exists>res. calc_chord_freqs chord_names chord_intervals root_note notes_dict all_notes = Inr res"
    using root_resolves [of _ chord_names] by simp
  from roots_loop_total [OF this, of "[]"] obtain temp
    where "roots_loop chord_names chord_intervals notes_dict all_notes middle_c_chromatic [] = Inr temp"
    by blast
  with c assms show ?thesis
    by (simp add: chords_def)
qed

theorem chords_other_range_witness:
  "''major'' \<noteq> ''c'' \<and> ''major'' \<noteq> ''all'' \<and> chords ''major'' = Inr None"
  using chords_other_range [of "''major''"] by simp

subsection \<open>Equal temperament of the base frequencies\<close>

lemma twelfth_root_pow: "(2 powr (1 / 12) :: real) ^ 12 = 2"
proof -
  have "(2 powr (1 / 12) :: real) ^ 12 = (2 powr (1 / 12)) powr (real 12)"
    by (subst powr_realpow) simp_all
  also have "\<dots> = 2"
    by (simp add: powr_powr)
  finally show ?thesis .
qed

lemma twelfth_root_lower: "0 \<le> a \<Longrightarrow> a ^ 12 \<le> 2 \<Longrightarrow> a \<le> 2 powr (1 / 12)" for a :: real
proof (rule ccontr)
  assume a: "0 \<le> a" "a ^ 12 \<le> 2" and "\<not> a \<le> 2 powr (1 / 12)"
  then have "2 powr (1 / 12) < a" by simp
  then have "(2 powr (1 / 12)) ^ 12 < a ^ 12"
    by (intro power_strict_mono) simp_all
  with a(2) show False by (simp add: twelfth_root_pow)
qed

lemma twelfth_root_upper: "0 \<le> b \<Longrightarrow> 2 \<le> b ^ 12 \<Longrightarrow> 2 powr (1 / 12) \<le> b" for b :: real
proof (rule ccontr)
  assume b: "0 \<le> b" "2 \<le> b ^ 12" and "\<not> 2 powr (1 / 12) \<le> b"
  then have "b < 2 powr (1 / 12)" by simp
  then have "b ^ 12 < (2 powr (1 / 12)) ^ 12"
    using b(1) by (intro power_strict_mono) simp_all
  with b(2) show False by (simp add: twelfth_root_pow)
qed

lemma relative_tolerance:
  fixes r t :: real
  assumes "r / (1 + 1 / 10 ^ 4) \<le> t" "t \<le> r / (1 - 1 / 10 ^ 4)"
  shows "\<bar>r - t\<bar> \<le> 1 / 10 ^ 4 * t"
proof -
  have "r * 10000 \<le> 10001 * t"
    using assms(1) by (simp add: field_simps)
  moreover have "9999 * t \<le> r * 10000"
    using assms(2) by (simp add: field_simps)
  ultimately have "r - t \<le> t / 10000" "t - r \<le> t / 10000"
    by linarith+
  then show ?thesis
    unfolding abs_le_iff by simp
qed

lemma semitone_tolerance:
  fixes r :: real
  assumes "0 \<le> r" "(r / (1 + 1 / 10 ^ 4)) ^ 12 \<le> 2" "2 \<le> (r / (1 - 1 / 10 ^ 4)) ^ 12"
  shows "\<bar>r - 2 powr (1 / 12)\<bar> \<le> 1 / 10 ^ 4 * 2 powr (1 / 12)"
proof -
  have "0 \<le> r / (1 + 1 / 10 ^ 4)" "0 \<le> r / (1 - 1 / 10 ^ 4)"
    using assms(1) by simp_all
  then have "r / (1 + 1 / 10 ^ 4) \<le> 2 powr (1 / 12)" "2 powr (1 / 12) \<le> r / (1 - 1 / 10 ^ 4)"
    using assms(2,3) by (blast intro: twelfth_root_lower twelfth_root_upper)+
  then show ?thesis by (rule relative_tolerance)
qed

lemma cf_1_ratios:
  "list_all (\<lambda>r. 0 \<le> r \<and> (r / (1 + 1 / 10 ^ 4)) ^ 12 \<le> 2 \<and> 2 \<le> (r / (1 - 1 / 10 ^ 4)) ^ 12)
     (map2 (\<lambda>next current. next / current) (tl cf_1) cf_1)"
  by (simp add: cf_1_def power_divide)

lemma cf_1_adjacent:
  assumes "p < 11"
  shows "\<bar>cf_1 ! (p + 1) / cf_1 ! p - 2 powr (1 / 12)\<bar> \<le> 1 / 10 ^ 4 * 2 powr (1 / 12)"
proof -
  let ?rs = "map2 (\<lambda>next current. next / current) (tl cf_1) cf_1"
  have len: "length ?rs = 11" by (simp add: cf_1_def)
  have "?rs ! p = cf_1 ! (p + 1) / cf_1 ! p"
    using assms by (simp add: length_cf_1 nth_tl)
  moreover have "0 \<le> ?rs ! p \<and> (?rs ! p / (1 + 1 / 10 ^ 4)) ^ 12 \<le> 2
                   \<and> 2 \<le> (?rs ! p / (1 - 1 / 10 ^ 4)) ^ 12"
    using cf_1_ratios assms len unfolding list_all_length by simp
  ultimately show ?thesis
    using semitone_tolerance [of "cf_1 ! (p + 1) / cf_1 ! p"] by simp
qed

text \<open>
  Claim C5.  In every octave \<open>i\<close> of the table built from \<open>cf_1\<close>, the ratio of the
  frequencies of two adjacent pitch classes \<open>p\<close> and \<open>p + 1\<close> differs from the twelfth root
  of two by at most \<open>10\<^sup>-\<^sup>4\<close> times that root.
\<close>

theorem semitone_ratio:
  assumes "i < 12" and "p < 11"
  shows "\<bar>calc_all_notes cf_1 ! (i * 12 + (p + 1)) / calc_all_notes cf_1 ! (i * 12 + p)
            - 2 powr (1 / 12)\<bar>
           \<le> 1 / 10 ^ 4 * 2 powr (1 / 12)"
proof -
  have "calc_all_notes cf_1 ! (i * 12 + (p + 1)) = cf_1 ! (p + 1) * 2 ^ i"
    using nth_calc_all_notes [of i cf_1 "p + 1"] assms by (simp add: length_cf_1)
  moreover have "calc_all_notes cf_1 ! (i * 12 + p) = cf_1 ! p * 2 ^ i"
    using nth_calc_all_notes [of i cf_1 p] assms by (simp add: length_cf_1)
  ultimately have "calc_all_notes cf_1 ! (i * 12 + (p + 1)) / calc_all_notes cf_1 ! (i * 12 + p)
                     = cf_1 ! (p + 1) / cf_1 ! p"
    by simp
  with cf_1_adjacent [OF assms(2)] show ?thesis by simp
qed

theorem semitone_ratio_witness:
  "(5::nat) < 12 \<and> (0::nat) < 11 \<and>
   \<bar>calc_all_notes cf_1 ! 61 / calc_all_notes cf_1 ! 60 - 2 powr (1 / 12)\<bar>
     \<le> 1 / 10 ^ 4 * 2 powr (1 / 12)"
  using semitone_ratio [of 5 0] by simp

end
